theory Spec2Isabelle
  imports Main "HOL-Library.Sublist" "HOL-Library.List_Lexorder" "HOL-Library.Char_ord"
    "HOL-Library.Multiset"
begin

section \<open>Transport client: \<open>gh_api\<close>\<close>

text \<open>
  One attempt of \<open>urllib.request.urlopen\<close> either gets an HTTP response (a status code and
  the parsed JSON payload) or fails below HTTP (\<open>URLError\<close>). The replies of the forge are
  given per attempt number, counted from 1 as the variable \<open>attempt\<close> of the loop.
\<close>

datatype 'v reply = Response nat 'v | NetworkError

datatype api_error = HTTPError nat | URLError

text \<open>
  The loop \<open>for attempt in range(1, max_retries + 1)\<close> of \<open>gh_api\<close>. \<open>urlopen\<close> returns
  for a 2xx status and raises \<open>HTTPError\<close> for every other one. The two scripts differ in the
  test for a retryable status only, which is the parameter \<open>retryable\<close>. The result is the
  number of requests sent and the value returned (\<open>Inr\<close>, \<open>None\<close> for Python's \<open>None\<close>) or the
  exception raised (\<open>Inl\<close>). The pauses of \<open>time.sleep\<close> between attempts are not modelled.
\<close>

function attempt_loop ::
  "(nat \<Rightarrow> bool) \<Rightarrow> (nat \<Rightarrow> 'v reply) \<Rightarrow> nat \<Rightarrow> nat \<Rightarrow> nat \<times> (api_error + 'v option)" where
  "attempt_loop retryable urlopen max_retries attempt =
     (if max_retries < attempt then (attempt - 1, Inr None)
      else case urlopen attempt of
        Response status payload \<Rightarrow>
          if 200 \<le> status \<and> status < 300
          then (attempt, Inr (if status = 204 then None else Some payload))
          else if \<not> retryable status \<or> attempt = max_retries
               then (attempt, Inl (HTTPError status))
               else attempt_loop retryable urlopen max_retries (attempt + 1)
      | NetworkError \<Rightarrow>
          if attempt = max_retries then (attempt, Inl URLError)
          else attempt_loop retryable urlopen max_retries (attempt + 1))"
  by pat_completeness auto
termination
  by (relation "measure (\<lambda>(r, u, m, a). Suc m - a)") auto

declare attempt_loop.simps [simp del]







subsection \<open>The loop, one attempt at a time\<close>




lemma attempt_loop_network_last:
  "urlopen max_retries = NetworkError \<Longrightarrow> 0 < max_retries \<Longrightarrow>
   attempt_loop retryable urlopen max_retries max_retries = (max_retries, Inl URLError)"
  by (subst attempt_loop.simps) simp

lemma attempt_loop_network_retry:
  "attempt < max_retries \<Longrightarrow> urlopen attempt = NetworkError \<Longrightarrow>
   attempt_loop retryable urlopen max_retries attempt =
     attempt_loop retryable urlopen max_retries (attempt + 1)"
  by (subst attempt_loop.simps) simp





lemma attempt_loop_network_retry_to:
  "attempt < max_retries \<Longrightarrow> urlopen attempt = NetworkError \<Longrightarrow> next_attempt = attempt + 1 \<Longrightarrow>
   attempt_loop retryable urlopen max_retries attempt =
     attempt_loop retryable urlopen max_retries next_attempt"
  using attempt_loop_network_retry [of attempt max_retries urlopen retryable] by simp








section \<open>Paginator\<close>

text \<open>
  \<open>paginate\<close> of \<open>post_pr_summar.py\<close>, read to the end as its callers do with \<open>list(...)\<close>,
  and the same loop written inline in \<open>find_open_pr_for_branch_or_sha\<close> of
  \<open>comment_on_push.py\<close>. \<open>fetch page\<close> is what \<open>gh_api\<close> gives for the request of that
  page: an exception, \<open>None\<close> (no content) or the list of items. The loop has no bound of
  its own, so the model is a partial function: \<open>None\<close> is a run that never returns. The
  result is the list of page numbers requested, and the items or the exception raised.
\<close>

partial_function (option) paginate ::
  "(nat \<Rightarrow> api_error + 'a list option) \<Rightarrow> nat \<Rightarrow> (nat list \<times> (api_error + 'a list)) option" where
  "paginate fetch page =
     (case fetch page of
        Inl e \<Rightarrow> Some ([page], Inl e)
      | Inr data \<Rightarrow>
          (case data of
             None \<Rightarrow> Some ([page], Inr [])
           | Some items \<Rightarrow>
               if items = [] then Some ([page], Inr [])
               else if length items < 100 then Some ([page], Inr items)
               else Option.bind (paginate fetch (page + 1))
                      (\<lambda>(pages, r). Some (page # pages, map_sum id ((@) items) r))))"

text \<open>
  The forge serving a collection that does not change during the traversal, 100 items to
  a page (\<open>per_page=100\<close>), pages counted from 1.
\<close>

definition serve :: "'a list \<Rightarrow> nat \<Rightarrow> api_error + 'a list option" where
  "serve xs page = Inr (Some (take 100 (drop (100 * (page - 1)) xs)))"

text \<open>A page is full when its request succeeds with at least 100 items.\<close>

definition full_page :: "(nat \<Rightarrow> api_error + 'a list option) \<Rightarrow> nat \<Rightarrow> bool" where
  "full_page fetch page =
     (case fetch page of Inr (Some items) \<Rightarrow> 100 \<le> length items | _ \<Rightarrow> False)"

definition page_items :: "(nat \<Rightarrow> api_error + 'a list option) \<Rightarrow> nat \<Rightarrow> api_error + 'a list" where
  "page_items fetch page =
     (case fetch page of Inl e \<Rightarrow> Inl e | Inr None \<Rightarrow> Inr [] | Inr (Some items) \<Rightarrow> Inr items)"

lemma paginate_stop:
  "\<not> full_page fetch page \<Longrightarrow> paginate fetch page = Some ([page], page_items fetch page)"
  by (subst paginate.simps)
    (auto simp: full_page_def page_items_def split: sum.splits option.splits)

lemma paginate_continue:
  "full_page fetch page \<Longrightarrow> fetch page = Inr (Some items) \<Longrightarrow>
   paginate fetch page =
     Option.bind (paginate fetch (page + 1))
       (\<lambda>(pages, r). Some (page # pages, map_sum id ((@) items) r))"
  by (subst paginate.simps) (auto simp: full_page_def)

lemma full_pageE:
  assumes "full_page fetch page"
  obtains items where "fetch page = Inr (Some items)" "100 \<le> length items"
  using assms by (auto simp: full_page_def split: sum.splits option.splits)

lemma paginate_returns:
  "(\<forall>j<k. full_page fetch (page + j)) \<Longrightarrow> \<not> full_page fetch (page + k) \<Longrightarrow>
   \<exists>r. paginate fetch page = Some ([page..<page + k + 1], r)"
proof (induction k arbitrary: page)
  case 0
  then show ?case by (simp add: paginate_stop)
next
  case (Suc k)
  from Suc.prems(1) have "full_page fetch page" by (metis add.right_neutral zero_less_Suc)
  then obtain items where items: "fetch page = Inr (Some items)" by (rule full_pageE)
  have "\<forall>j<k. full_page fetch (page + 1 + j)" using Suc.prems(1) by (auto simp: less_Suc_eq_0_disj)
  moreover have "\<not> full_page fetch (page + 1 + k)" using Suc.prems(2) by simp
  ultimately obtain r where "paginate fetch (page + 1) = Some ([page + 1..<page + 1 + k + 1], r)"
    using Suc.IH [of "page + 1"] by blast
  then show ?case
    using paginate_continue [OF \<open>full_page fetch page\<close> items]
    by (simp add: upt_conv_Cons)
qed

lemma paginate_stops_somewhere:
  assumes "paginate fetch page = Some y"
  shows "\<exists>k. \<not> full_page fetch (page + k)"
proof (rule paginate.raw_induct [where P = "\<lambda>fetch page y. \<exists>k. \<not> full_page fetch (page + k)"])
  show "paginate fetch page = Some y" by (rule assms)
next
  fix approx :: "(nat \<Rightarrow> api_error + 'a list option) \<Rightarrow> nat \<Rightarrow> (nat list \<times> (api_error + 'a list)) option"
    and fetch page y
  assume IH: "\<And>fetch page y. approx fetch page = Some y \<Longrightarrow> \<exists>k. \<not> full_page fetch (page + k)"
    and body: "(case fetch page of
        Inl e \<Rightarrow> Some ([page], Inl e)
      | Inr data \<Rightarrow>
          (case data of
             None \<Rightarrow> Some ([page], Inr [])
           | Some items \<Rightarrow>
               if items = [] then Some ([page], Inr [])
               else if length items < 100 then Some ([page], Inr items)
               else Option.bind (approx fetch (page + 1))
                      (\<lambda>(pages, r). Some (page # pages, map_sum id ((@) items) r)))) = Some y"
  show "\<exists>k. \<not> full_page fetch (page + k)"
  proof (cases "full_page fetch page")
    case False
    then show ?thesis by (metis add.right_neutral)
  next
    case True
    then obtain items where items: "fetch page = Inr (Some items)" "100 \<le> length items"
      by (rule full_pageE)
    with body obtain y' where "approx fetch (page + 1) = Some y'"
      by (auto split: if_splits simp: bind_eq_Some_conv)
    then obtain k where "\<not> full_page fetch (page + 1 + k)" using IH by blast
    then show ?thesis by (metis add.assoc)
  qed
qed

lemma paginate_trace:
  "paginate fetch page = Some (pages, r) \<Longrightarrow>
   \<exists>k. pages = [page..<page + k + 1] \<and> (\<forall>j<k. full_page fetch (page + j)) \<and>
       \<not> full_page fetch (page + k)"
proof -
  assume ret: "paginate fetch page = Some (pages, r)"
  then obtain k0 where "\<not> full_page fetch (page + k0)" using paginate_stops_somewhere by blast
  define k where "k = (LEAST k. \<not> full_page fetch (page + k))"
  have nk: "\<not> full_page fetch (page + k)"
    unfolding k_def using \<open>\<not> full_page fetch (page + k0)\<close> by (rule LeastI)
  have "\<forall>j<k. full_page fetch (page + j)"
    unfolding k_def using not_less_Least by blast
  with nk paginate_returns [of k fetch page] ret show ?thesis by auto
qed

lemma paginate_serve_aux:
  "length (drop (100 * (page - 1)) xs) = n \<Longrightarrow> 0 < page \<Longrightarrow>
   paginate (serve xs) page =
     Some ([page..<page + n div 100 + 1], Inr (drop (100 * (page - 1)) xs))"
proof (induction n arbitrary: page rule: less_induct)
  case (less n)
  let ?rest = "drop (100 * (page - 1)) xs"
  show ?case
  proof (cases "n < 100")
    case True
    then have "\<not> full_page (serve xs) page"
      using less.prems by (simp add: full_page_def serve_def)
    moreover have "page_items (serve xs) page = Inr ?rest"
      using True less.prems by (simp add: page_items_def serve_def)
    ultimately show ?thesis using True by (simp add: paginate_stop)
  next
    case False
    then have full: "full_page (serve xs) page"
      using less.prems by (simp add: full_page_def serve_def)
    have items: "serve xs page = Inr (Some (take 100 ?rest))" by (simp add: serve_def)
    define m where "m = (n - 100) div 100"
    have d: "drop (100 * (page + 1 - 1)) xs = drop 100 ?rest"
      using less.prems(2) by (simp add: algebra_simps Suc_diff_Suc)
    have "length (drop (100 * (page + 1 - 1)) xs) = n - 100"
      unfolding d using less.prems(1) by simp
    moreover have "n - 100 < n" using False by simp
    ultimately have "paginate (serve xs) (page + 1) =
      Some ([page + 1..<page + 1 + (n - 100) div 100 + 1], Inr (drop (100 * (page + 1 - 1)) xs))"
      using less.IH [of "n - 100" "page + 1"] by simp
    then have rec: "paginate (serve xs) (page + 1) =
      Some ([page + 1..<page + 1 + m + 1], Inr (drop 100 ?rest))"
      unfolding d m_def .
    have e: "n div 100 = m + 1"
      unfolding m_def using False by (simp add: le_div_geq)
    have u: "[page..<page + n div 100 + 1] = page # [page + 1..<page + 1 + m + 1]"
      unfolding e by (simp add: upt_conv_Cons)
    have "paginate (serve xs) page =
      Some (page # [page + 1..<page + 1 + m + 1], Inr (take 100 ?rest @ drop 100 ?rest))"
      unfolding paginate_continue [OF full items] rec by simp
    then show ?thesis
      unfolding u append_take_drop_id .
  qed
qed

lemma paginate_serve:
  "paginate (serve xs) 1 = Some ([1..<length xs div 100 + 2], Inr xs)"
  using paginate_serve_aux [of 1 xs "length xs"] by simp

lemma paginate_diverges:
  "(\<forall>k. full_page fetch (page + k)) \<Longrightarrow> paginate fetch page = None"
  using paginate_stops_somewhere [of fetch page] by (cases "paginate fetch page") auto

lemma paginate_requests_nonempty:
  "paginate fetch page = Some (pages, r) \<Longrightarrow> pages \<noteq> []"
  using paginate_trace [of fetch page pages r] by auto

text \<open>
  C6. A collection of 250 items, served 100 to a page, is returned whole and in order
  after the requests for pages 1, 2 and 3, the last of which holds 50 items; every static
  collection is returned whole, after \<open>length xs div 100 + 1\<close> requests. In general the
  loop returns exactly when some page is not full (fewer than 100 items, an empty page,
  no content, or an exception of the transport), and the pages it requested are then the
  consecutive ones from 1 up to the first page that is not full.
\<close>

theorem paginate_traverses_collection:
  "(length xs = 250 \<longrightarrow>
      paginate (serve xs) 1 = Some ([1, 2, 3], Inr xs) \<and>
      serve xs 3 = Inr (Some (drop 200 xs)) \<and> length (drop 200 xs) = 50) \<and>
   paginate (serve xs) 1 = Some ([1..<length xs div 100 + 2], Inr xs) \<and>
   ((\<exists>y. paginate fetch 1 = Some y) \<longleftrightarrow> (\<exists>k. \<not> full_page fetch (1 + k))) \<and>
   (\<forall>pages r. paginate fetch 1 = Some (pages, r) \<longrightarrow>
      (\<exists>k. pages = [1..<k + 2] \<and> (\<forall>j<k. full_page fetch (1 + j)) \<and>
           \<not> full_page fetch (1 + k)))"
proof -
  have a: "paginate (serve xs) 1 = Some ([1, 2, 3], Inr xs)" if "length xs = 250"
    using that paginate_serve [of xs] by (simp add: upt_rec)
  have b: "serve xs 3 = Inr (Some (drop 200 xs)) \<and> length (drop 200 xs) = 50"
    if "length xs = 250"
    using that by (simp add: serve_def)
  have c: "(\<exists>y. paginate fetch 1 = Some y) \<longleftrightarrow> (\<exists>k. \<not> full_page fetch (1 + k))"
  proof
    assume "\<exists>y. paginate fetch 1 = Some y"
    then show "\<exists>k. \<not> full_page fetch (1 + k)" using paginate_stops_somewhere by blast
  next
    assume "\<exists>k. \<not> full_page fetch (1 + k)"
    then obtain k0 where k0: "\<not> full_page fetch (1 + k0)" ..
    define k where "k = (LEAST k. \<not> full_page fetch (1 + k))"
    have "\<not> full_page fetch (1 + k)" unfolding k_def using k0 by (rule LeastI)
    moreover have "\<forall>j<k. full_page fetch (1 + j)" unfolding k_def using not_less_Least by blast
    ultimately show "\<exists>y. paginate fetch 1 = Some y"
      using paginate_returns [of k fetch 1] by blast
  qed
  have d: "\<exists>k. pages = [1..<k + 2] \<and> (\<forall>j<k. full_page fetch (1 + j)) \<and>
           \<not> full_page fetch (1 + k)" if "paginate fetch 1 = Some (pages, r)" for pages r
    using paginate_trace [OF that] by (simp add: add.commute)
  show ?thesis using a b c d paginate_serve [of xs] by blast
qed

theorem paginate_traverses_collection_witness:
  "length [0..<250::nat] = 250 \<and>
   paginate (serve [0..<250::nat]) 1 = Some ([1, 2, 3], Inr [0..<250]) \<and>
   length (drop 200 [0..<250::nat]) = 50 \<and>
   \<not> full_page (serve [0..<250::nat]) (1 + 2)"
proof -
  have l: "length [0..<250::nat] = 250" by simp
  have f: "\<not> full_page (serve [0..<250::nat]) (1 + 2)"
    by (simp add: full_page_def serve_def)
  show ?thesis
    using l f paginate_traverses_collection [of "[0..<250::nat]" "serve [0..<250::nat]"]
    by blast
qed

section \<open>Text\<close>

text \<open>
  Python's \<open>str\<close> is modelled by \<open>string\<close>: a list of 8-bit characters, ASCII text as it
  stands and any other code point as its UTF-8 bytes. The line boundaries, white space and
  digits that Python recognises outside ASCII are outside the model.
\<close>

text \<open>\<open>d.get(key, default)\<close> on a key that may be absent (\<open>None\<close>).\<close>

definition get_or :: "'a option \<Rightarrow> 'a \<Rightarrow> 'a" where
  "get_or field dflt = (case field of None \<Rightarrow> dflt | Some v \<Rightarrow> v)"

text \<open>\<open>sep.join(lines)\<close>.\<close>

fun join :: "string \<Rightarrow> string list \<Rightarrow> string" where
  "join sep [] = []"
| "join sep [l] = l"
| "join sep (l # m # ls) = l @ sep @ join sep (m # ls)"

text \<open>\<open>str(n)\<close> for an integer.\<close>

definition digit_char :: "nat \<Rightarrow> char" where
  "digit_char d = char_of (48 + d)"

function str_nat :: "nat \<Rightarrow> string" where
  "str_nat n = (if n < 10 then [digit_char n] else str_nat (n div 10) @ [digit_char (n mod 10)])"
  by pat_completeness auto
termination
  by (relation "measure id") auto

declare str_nat.simps [simp del]

definition str_int :: "int \<Rightarrow> string" where
  "str_int i = (if i < 0 then CHR ''-'' # str_nat (nat (- i)) else str_nat (nat i))"

text \<open>
  \<open>str.splitlines()\<close>: the ASCII line boundaries are LF, VT, FF, CR, FS, GS and RS, with
  CR LF as one boundary; a boundary at the very end opens no further line.
\<close>

definition is_linebreak :: "char \<Rightarrow> bool" where
  "is_linebreak c = (of_char c \<in> {10, 11, 12, 13, 28, 29, 30 :: nat})"

fun splitlines_from :: "string \<Rightarrow> string \<Rightarrow> string list" where
  "splitlines_from line [] = (if line = [] then [] else [line])"
| "splitlines_from line (c # cs) =
     (if c = CHR 0x0D then
        (case cs of
           [] \<Rightarrow> [line]
         | d # ds \<Rightarrow> if d = CHR 0x0A then line # splitlines_from [] ds
                    else line # splitlines_from [] (d # ds))
      else if is_linebreak c then line # splitlines_from [] cs
      else splitlines_from (line @ [c]) cs)"

definition splitlines :: "string \<Rightarrow> string list" where
  "splitlines s = splitlines_from [] s"


section \<open>Push comment: \<open>scripts/comment_on_push.py\<close>\<close>

text \<open>
  An open pull request as the list endpoint gives it: \<open>p["number"]\<close>,
  \<open>p.get("head", {}).get("sha")\<close> and \<open>p.get("head", {}).get("ref")\<close>, the last two
  \<open>None\<close> when a key is absent.
\<close>

record open_pr =
  number :: int
  head_sha :: "string option"
  head_ref :: "string option"

text \<open>
  The fast path: \<open>if PR_NUMBER_ENV: try: return int(PR_NUMBER_ENV) except ValueError: pass\<close>.
  The environment variable is absent (\<open>None\<close>) or a string, which is false when empty.
  Python's \<open>int\<close> is the parameter \<open>int_of\<close>, \<open>None\<close> where it raises \<open>ValueError\<close>.
\<close>

definition hint_number :: "(string \<Rightarrow> int option) \<Rightarrow> string option \<Rightarrow> int option" where
  "hint_number int_of PR_NUMBER_ENV =
     (case PR_NUMBER_ENV of
        None \<Rightarrow> None
      | Some s \<Rightarrow> if s = [] then None else int_of s)"

text \<open>
  Lines 83 to 87: the first pull request whose head commit is \<open>SHA\<close>, else the first whose
  head branch is \<open>BRANCH\<close>; its number, or \<open>None\<close>.
\<close>

definition select_pr :: "open_pr list \<Rightarrow> string \<Rightarrow> string \<Rightarrow> int option" where
  "select_pr prs SHA BRANCH =
     (case find (\<lambda>p. head_sha p = Some SHA) prs of
        Some pr \<Rightarrow> Some (number pr)
      | None \<Rightarrow>
          (case find (\<lambda>p. head_ref p = Some BRANCH) prs of
             Some pr \<Rightarrow> Some (number pr)
           | None \<Rightarrow> None))"

text \<open>
  The result is the list of pages requested from the forge, and the number returned
  (\<open>None\<close> for no pull request) or the exception of \<open>gh_api\<close>.
\<close>

definition find_open_pr_for_branch_or_sha ::
  "(string \<Rightarrow> int option) \<Rightarrow> string option \<Rightarrow> (nat \<Rightarrow> api_error + open_pr list option) \<Rightarrow>
   string \<Rightarrow> string \<Rightarrow> (nat list \<times> (api_error + int option)) option" where
  "find_open_pr_for_branch_or_sha int_of PR_NUMBER_ENV fetch SHA BRANCH =
     (case hint_number int_of PR_NUMBER_ENV of
        Some n \<Rightarrow> Some ([], Inr (Some n))
      | None \<Rightarrow>
          (case paginate fetch 1 of
             None \<Rightarrow> None
           | Some (pages, Inl e) \<Rightarrow> Some (pages, Inl e)
           | Some (pages, Inr prs) \<Rightarrow> Some (pages, Inr (select_pr prs SHA BRANCH))))"

text \<open>A commit as the compare and the commits endpoints give it.\<close>

record commit =
  sha :: "string option"
  message :: "string option"

text \<open>
  \<open>fetch_push_commit_messages\<close>. \<open>compare\<close> is the outcome of the request: an exception,
  or the list under \<open>"commits"\<close> (\<open>None\<close> when the reply is no object or has no such key).
  Every exception is caught and gives the empty list.
\<close>

definition title_of :: "string \<Rightarrow> string" where
  "title_of msg = (case splitlines msg of [] \<Rightarrow> [] | l # ls \<Rightarrow> l)"







subsection \<open>The earlier script \<open>workflows/comment_on_push.py\<close>\<close>



text \<open>
  For concrete runs: \<open>int\<close> on a string of ASCII decimal digits. The other strings that
  Python's \<open>int\<close> accepts (a sign, white space around, underscores between digits) are
  not covered, so it stands for \<open>int\<close> only at the inputs it is used on below.
\<close>

definition is_digit :: "char \<Rightarrow> bool" where
  "is_digit c = (CHR ''0'' \<le> c \<and> c \<le> CHR ''9'')"

definition int_of_digits :: "string \<Rightarrow> int option" where
  "int_of_digits s =
     (if s \<noteq> [] \<and> list_all is_digit s
      then Some (foldl (\<lambda>n c. 10 * n + (int (of_char c) - 48)) 0 s) else None)"

subsection \<open>Resolution\<close>

lemma find_open_pr_search:
  "hint_number int_of PR_NUMBER_ENV = None \<Longrightarrow>
   find_open_pr_for_branch_or_sha int_of PR_NUMBER_ENV (serve prs) SHA BRANCH =
     Some ([1..<length prs div 100 + 2], Inr (select_pr prs SHA BRANCH))"
  unfolding find_open_pr_for_branch_or_sha_def paginate_serve by simp







definition example_prs :: "open_pr list" where
  "example_prs =
     [\<lparr>number = 7, head_sha = Some ''aaaaaaa1'', head_ref = Some ''feature''\<rparr>,
      \<lparr>number = 9, head_sha = Some ''bbbbbbb2'', head_ref = Some ''hotfix''\<rparr>]"



lemma find_open_pr_no_request:
  assumes "find_open_pr_for_branch_or_sha int_of PR_NUMBER_ENV fetch SHA BRANCH = Some ([], r)"
  shows "\<exists>n. hint_number int_of PR_NUMBER_ENV = Some n \<and> r = Inr (Some n)"
proof (cases "hint_number int_of PR_NUMBER_ENV")
  case None
  with assms obtain pages r' where "paginate fetch 1 = Some (pages, r')" and "pages = []"
    by (auto simp: find_open_pr_for_branch_or_sha_def split: option.splits sum.splits)
  then show ?thesis using paginate_requests_nonempty by blast
next
  case (Some n)
  with assms show ?thesis by (simp add: find_open_pr_for_branch_or_sha_def)
qed

lemma hint_number_Some:
  "hint_number int_of PR_NUMBER_ENV = Some n \<longleftrightarrow>
     (\<exists>s. PR_NUMBER_ENV = Some s \<and> s \<noteq> [] \<and> int_of s = Some n)"
  by (auto simp: hint_number_def split: option.splits)

text \<open>
  C10. A given \<open>GITHUB_PR_NUMBER\<close> that \<open>int\<close> rejects is dropped: the function does what
  it does with no hint at all, which is the search over the open pull requests, and
  against a static collection that search returns and raises nothing. A non-empty hint
  that \<open>int\<close> accepts is returned as it is with no request sent; and whenever the function
  returns with no request sent, the hint was non-empty and accepted by \<open>int\<close>.
\<close>

theorem pr_number_hint_fallback:
  "(PR_NUMBER_ENV = Some s \<and> int_of s = None \<longrightarrow>
      find_open_pr_for_branch_or_sha int_of PR_NUMBER_ENV fetch SHA BRANCH =
        find_open_pr_for_branch_or_sha int_of None fetch SHA BRANCH \<and>
      find_open_pr_for_branch_or_sha int_of PR_NUMBER_ENV (serve prs) SHA BRANCH =
        Some ([1..<length prs div 100 + 2], Inr (select_pr prs SHA BRANCH))) \<and>
   (PR_NUMBER_ENV = Some s \<and> s \<noteq> [] \<and> int_of s = Some n \<longrightarrow>
      find_open_pr_for_branch_or_sha int_of PR_NUMBER_ENV fetch SHA BRANCH =
        Some ([], Inr (Some n))) \<and>
   (\<forall>r. find_open_pr_for_branch_or_sha int_of PR_NUMBER_ENV fetch SHA BRANCH = Some ([], r) \<longrightarrow>
      (\<exists>s n. PR_NUMBER_ENV = Some s \<and> s \<noteq> [] \<and> int_of s = Some n \<and> r = Inr (Some n)))"
proof -
  have a: "find_open_pr_for_branch_or_sha int_of PR_NUMBER_ENV fetch SHA BRANCH =
        find_open_pr_for_branch_or_sha int_of None fetch SHA BRANCH \<and>
      find_open_pr_for_branch_or_sha int_of PR_NUMBER_ENV (serve prs) SHA BRANCH =
        Some ([1..<length prs div 100 + 2], Inr (select_pr prs SHA BRANCH))"
    if "PR_NUMBER_ENV = Some s" "int_of s = None"
  proof -
    have h: "hint_number int_of PR_NUMBER_ENV = None" using that by (simp add: hint_number_def)
    have "hint_number int_of None = None" by (simp add: hint_number_def)
    with h show ?thesis
      using find_open_pr_search [OF h, of prs SHA BRANCH]
      by (simp add: find_open_pr_for_branch_or_sha_def)
  qed
  have b: "find_open_pr_for_branch_or_sha int_of PR_NUMBER_ENV fetch SHA BRANCH =
        Some ([], Inr (Some n))"
    if "PR_NUMBER_ENV = Some s" "s \<noteq> []" "int_of s = Some n"
    using that by (simp add: find_open_pr_for_branch_or_sha_def hint_number_def)
  have c: "\<exists>s n. PR_NUMBER_ENV = Some s \<and> s \<noteq> [] \<and> int_of s = Some n \<and> r = Inr (Some n)"
    if "find_open_pr_for_branch_or_sha int_of PR_NUMBER_ENV fetch SHA BRANCH = Some ([], r)" for r
    using find_open_pr_no_request [OF that] unfolding hint_number_Some by blast
  show ?thesis using a b c by blast
qed

theorem pr_number_hint_fallback_witness:
  "int_of_digits ''abc'' = None \<and>
   find_open_pr_for_branch_or_sha int_of_digits (Some ''abc'') (serve example_prs)
     ''bbbbbbb2'' ''feature'' = Some ([1], Inr (Some 9)) \<and>
   int_of_digits ''42'' = Some 42 \<and>
   find_open_pr_for_branch_or_sha int_of_digits (Some ''42'') (serve example_prs)
     ''bbbbbbb2'' ''feature'' = Some ([], Inr (Some 42))"
proof -
  have p1: "int_of_digits ''abc'' = None" by (simp add: int_of_digits_def is_digit_def)
  have p2: "int_of_digits ''42'' = Some 42" by (simp add: int_of_digits_def is_digit_def)
  have l: "[1..<length example_prs div 100 + 2] = [1]"
    by (simp add: example_prs_def upt_rec)
  have s: "select_pr example_prs ''bbbbbbb2'' ''feature'' = Some 9"
    by (simp add: select_pr_def example_prs_def)
  have w1: "find_open_pr_for_branch_or_sha int_of_digits (Some ''abc'') (serve example_prs)
     ''bbbbbbb2'' ''feature'' = Some ([1], Inr (Some 9))"
  proof -
    have "Some ''abc'' = Some ''abc'' \<and> int_of_digits ''abc'' = None" using p1 by simp
    then have "find_open_pr_for_branch_or_sha int_of_digits (Some ''abc'') (serve example_prs)
        ''bbbbbbb2'' ''feature'' =
        Some ([1..<length example_prs div 100 + 2],
              Inr (select_pr example_prs ''bbbbbbb2'' ''feature''))"
      by (rule pr_number_hint_fallback [of "Some ''abc''" "''abc''" int_of_digits
            "serve example_prs" "''bbbbbbb2''" "''feature''" example_prs 42,
            THEN conjunct1, THEN mp, THEN conjunct2])
    then show ?thesis unfolding l s .
  qed
  have w2: "find_open_pr_for_branch_or_sha int_of_digits (Some ''42'') (serve example_prs)
     ''bbbbbbb2'' ''feature'' = Some ([], Inr (Some 42))"
  proof -
    have "Some ''42'' = Some ''42'' \<and> ''42'' \<noteq> [] \<and> int_of_digits ''42'' = Some 42"
      using p2 by simp
    then show ?thesis
      by (rule pr_number_hint_fallback [of "Some ''42''" "''42''" int_of_digits
            "serve example_prs" "''bbbbbbb2''" "''feature''" example_prs 42,
            THEN conjunct2, THEN conjunct1, THEN mp])
  qed
  show ?thesis using p1 p2 w1 w2 by simp
qed

section \<open>Summary formatter: \<open>format_summary\<close> of \<open>post_pr_summar.py\<close>\<close>

text \<open>
  The pull request and a changed file, as the forge gives them, with the fields that
  \<open>format_summary\<close> reads (\<open>pr_user_login\<close> is \<open>pr.get("user", {}).get("login")\<close>, and so
  on). A field is \<open>None\<close> when its key is absent, and \<open>.get\<close> then gives the default
  written in the source.
\<close>

record pull_request =
  pr_title :: "string option"
  pr_user_login :: "string option"
  pr_head_ref :: "string option"
  pr_base_ref :: "string option"
  pr_additions :: "int option"
  pr_deletions :: "int option"
  pr_changed_files :: "int option"
  pr_body :: "string option"

record file_change =
  file_name :: "string option"
  file_status :: "string option"
  file_additions :: "int option"
  file_deletions :: "int option"

definition MARKER :: string where
  "MARKER = ''<!-- pr-summary-bot -->''"

definition plural :: "int \<Rightarrow> string \<Rightarrow> string" where
  "plural n word = str_int n @ '' '' @ word @ (if n = 1 then [] else ''s'')"

text \<open>Lines 105 to 111: \<open>for c in reversed(commits[-10:])\<close>.\<close>

definition commit_line :: "commit \<Rightarrow> string" where
  "commit_line c =
     (let sha7 = take 7 (get_or (sha c) []);
          msg = (if get_or (message c) [] = [] then ''(no message)'' else get_or (message c) []);
          title_line = title_of msg
      in ''- `'' @ sha7 @ ''` '' @ title_line)"

definition recent_commits :: "commit list \<Rightarrow> string list" where
  "recent_commits commits = map commit_line (rev (drop (length commits - 10) commits))"

text \<open>
  Lines 113 to 123. \<open>or 0\<close> replaces a count of 0 by 0. \<open>list.sort(reverse=True, key=...)\<close>
  is a stable sort on the key in descending order, which is the stable sort on the
  negated key.
\<close>

definition file_summaries :: "file_change list \<Rightarrow> (int \<times> string \<times> string \<times> int \<times> int) list" where
  "file_summaries files =
     map (\<lambda>f. (get_or (file_additions f) 0 + get_or (file_deletions f) 0,
               get_or (file_status f) [], get_or (file_name f) [],
               get_or (file_additions f) 0, get_or (file_deletions f) 0)) files"

definition ranked_files :: "file_change list \<Rightarrow> (int \<times> string \<times> string \<times> int \<times> int) list" where
  "ranked_files files = sort_key (\<lambda>x. - fst x) (file_summaries files)"

definition file_line :: "int \<times> string \<times> string \<times> int \<times> int \<Rightarrow> string" where
  "file_line x =
     (case x of (chg, status, name, add, dele) \<Rightarrow>
        ''- `'' @ name @ ''` ('' @ status @ '', +'' @ str_int add @ ''/-'' @ str_int dele @ '')'')"

definition top_files :: "file_change list \<Rightarrow> string list" where
  "top_files files = map file_line (take 10 (ranked_files files))"

text \<open>Lines 125 to 129; each label starts with the UTF-8 bytes of a coloured square.\<close>

definition small_label :: string where
  "small_label = [CHR 0xF0, CHR 0x9F, CHR 0x9F, CHR 0xA9] @ '' small''"

definition medium_label :: string where
  "medium_label = [CHR 0xF0, CHR 0x9F, CHR 0x9F, CHR 0xA8] @ '' medium''"

definition large_label :: string where
  "large_label = [CHR 0xF0, CHR 0x9F, CHR 0x9F, CHR 0xA7] @ '' large''"

definition huge_label :: string where
  "huge_label = [CHR 0xF0, CHR 0x9F, CHR 0x9F, CHR 0xA5] @ '' huge''"

definition size_label :: "int \<Rightarrow> string" where
  "size_label total_delta =
     (if total_delta > 1000 then huge_label
      else if total_delta > 500 then large_label
      else if total_delta > 200 then medium_label
      else small_label)"

text \<open>
  Lines 145 to 153. \<open>str.split()\<close> cuts at runs of white space (ASCII: HT, LF, VT, FF, CR,
  FS, GS, RS, US and the space) and gives no empty token; \<open>str.isdigit()\<close> holds for a
  non-empty string of digits.
\<close>

definition is_space :: "char \<Rightarrow> bool" where
  "is_space c = (of_char c \<in> {9, 10, 11, 12, 13, 28, 29, 30, 31, 32 :: nat})"

fun split_from :: "string \<Rightarrow> string \<Rightarrow> string list" where
  "split_from tok [] = (if tok = [] then [] else [tok])"
| "split_from tok (c # cs) =
     (if is_space c then (if tok = [] then split_from [] cs else tok # split_from [] cs)
      else split_from (tok @ [c]) cs)"

definition split :: "string \<Rightarrow> string list" where
  "split s = split_from [] s"

definition isdigit :: "string \<Rightarrow> bool" where
  "isdigit s = (s \<noteq> [] \<and> list_all is_digit s)"

definition is_issue_token :: "string \<Rightarrow> bool" where
  "is_issue_token token =
     (case token of [] \<Rightarrow> False | c # rest \<Rightarrow> c = CHR ''#'' \<and> isdigit rest)"

definition issue_tokens :: "string option \<Rightarrow> string list" where
  "issue_tokens body =
     filter is_issue_token
       (split (map (\<lambda>c. if c = CHR 0x0A then CHR '' '' else c) (get_or body [])))"

text \<open>
  \<open>linked\<close> is a Python set: it holds each token once, and the order in which \<open>sorted\<close>
  reads it is not fixed by the language (it depends on the hashes of the strings). That
  order is the parameter \<open>iter\<close>, which may be any rearrangement of the elements.
\<close>

definition rearranges :: "(string list \<Rightarrow> string list) \<Rightarrow> bool" where
  "rearranges iter = (\<forall>xs. mset (iter xs) = mset xs)"

definition linked_issues :: "(string list \<Rightarrow> string list) \<Rightarrow> string option \<Rightarrow> string list" where
  "linked_issues iter body = sort (iter (remdups (issue_tokens body)))"

definition summary_lines ::
  "(string list \<Rightarrow> string list) \<Rightarrow> pull_request \<Rightarrow> commit list \<Rightarrow> file_change list \<Rightarrow> string list" where
  "summary_lines iter pr commits files =
     (let adds = get_or (pr_additions pr) 0;
          dels = get_or (pr_deletions pr) 0;
          linked = linked_issues iter (pr_body pr)
      in [MARKER,
          ''### PR Summary'',
          ''**Title:** '' @ get_or (pr_title pr) ''(no title)'',
          ''**Author:** @'' @ get_or (pr_user_login pr) ''unknown'',
          ''**Branch:** `'' @ get_or (pr_head_ref pr) ''?'' @ ''` '' @
            [CHR 0xE2, CHR 0x86, CHR 0x92] @ '' `'' @ get_or (pr_base_ref pr) ''?'' @ ''`'',
          ''**Scope:** '' @ plural (get_or (pr_changed_files pr) (int (length files))) ''file'' @
            '', '' @ plural (int (length commits)) ''commit'' @ '', **+'' @ str_int adds @
            '' / -'' @ str_int dels @ ''** ('' @ size_label (adds + dels) @ '')'']
         @ (if recent_commits commits \<noteq> []
            then [[], ''#### Recent commits''] @ recent_commits commits else [])
         @ (if top_files files \<noteq> []
            then [[], ''#### Most-changed files''] @ top_files files else [])
         @ (if linked \<noteq> []
            then [[], ''#### Linked issues'', ''- '' @ join '' '' linked] else [])
         @ [[], ''_I'' @ [CHR 0xE2, CHR 0x80, CHR 0x99] @
                ''ll update this comment when new commits are pushed._''])"

definition format_summary ::
  "(string list \<Rightarrow> string list) \<Rightarrow> pull_request \<Rightarrow> commit list \<Rightarrow> file_change list \<Rightarrow> string" where
  "format_summary iter pr commits files = join [CHR 0x0A] (summary_lines iter pr commits files)"

definition example_pr :: pull_request where
  "example_pr =
     \<lparr>pr_title = Some ''Add retries'', pr_user_login = Some ''octocat'',
      pr_head_ref = Some ''feature'', pr_base_ref = Some ''main'',
      pr_additions = Some 300, pr_deletions = Some 50, pr_changed_files = None,
      pr_body = Some ''fixes #12 and relates to #7 see #12''\<rparr>"

subsection \<open>Size label\<close>

lemma labels_distinct:
  "small_label \<noteq> medium_label" "small_label \<noteq> large_label" "small_label \<noteq> huge_label"
  "medium_label \<noteq> large_label" "medium_label \<noteq> huge_label" "large_label \<noteq> huge_label"
  by (simp_all add: small_label_def medium_label_def large_label_def huge_label_def)

lemma summary_scope_line:
  "summary_lines iter pr commits files ! 5 =
     ''**Scope:** '' @ plural (get_or (pr_changed_files pr) (int (length files))) ''file'' @
     '', '' @ plural (int (length commits)) ''commit'' @ '', **+'' @
     str_int (get_or (pr_additions pr) 0) @ '' / -'' @ str_int (get_or (pr_deletions pr) 0) @
     ''** ('' @ size_label (get_or (pr_additions pr) 0 + get_or (pr_deletions pr) 0) @ '')''"
  by (simp add: summary_lines_def Let_def)

text \<open>
  C4. The label is the ``small'' one exactly for a total of at most 200, the ``medium'' one
  exactly above 200 and up to 500, the ``large'' one exactly above 500 and up to 1000, and
  the ``huge'' one exactly above 1000; and the label in the scope line of the summary is
  that of additions plus deletions.
\<close>

theorem size_label_thresholds:
  "(size_label t = small_label \<longleftrightarrow> t \<le> 200) \<and>
   (size_label t = medium_label \<longleftrightarrow> 200 < t \<and> t \<le> 500) \<and>
   (size_label t = large_label \<longleftrightarrow> 500 < t \<and> t \<le> 1000) \<and>
   (size_label t = huge_label \<longleftrightarrow> 1000 < t) \<and>
   summary_lines iter pr commits files ! 5 =
     ''**Scope:** '' @ plural (get_or (pr_changed_files pr) (int (length files))) ''file'' @
     '', '' @ plural (int (length commits)) ''commit'' @ '', **+'' @
     str_int (get_or (pr_additions pr) 0) @ '' / -'' @ str_int (get_or (pr_deletions pr) 0) @
     ''** ('' @ size_label (get_or (pr_additions pr) 0 + get_or (pr_deletions pr) 0) @ '')''"
proof -
  have "size_label t = small_label \<longleftrightarrow> t \<le> 200"
    using labels_distinct by (auto simp: size_label_def)
  moreover have "size_label t = medium_label \<longleftrightarrow> 200 < t \<and> t \<le> 500"
    using labels_distinct by (auto simp: size_label_def)
  moreover have "size_label t = large_label \<longleftrightarrow> 500 < t \<and> t \<le> 1000"
    using labels_distinct by (auto simp: size_label_def)
  moreover have "size_label t = huge_label \<longleftrightarrow> 1000 < t"
    using labels_distinct by (auto simp: size_label_def)
  ultimately show ?thesis using summary_scope_line by blast
qed

theorem size_label_thresholds_witness:
  "size_label 200 = small_label \<and> size_label 201 = medium_label \<and>
   size_label (300 + 50) = medium_label \<and> size_label 500 = medium_label \<and>
   size_label 501 = large_label \<and> size_label 1000 = large_label \<and>
   size_label 1001 = huge_label"
proof -
  have t: "size_label n = small_label \<longleftrightarrow> n \<le> 200"
    "size_label n = medium_label \<longleftrightarrow> 200 < n \<and> n \<le> 500"
    "size_label n = large_label \<longleftrightarrow> 500 < n \<and> n \<le> 1000"
    "size_label n = huge_label \<longleftrightarrow> 1000 < n" for n
  proof -
    note s = size_label_thresholds [of n id example_pr "[]" "[]"]
    show "size_label n = small_label \<longleftrightarrow> n \<le> 200" by (rule s [THEN conjunct1])
    show "size_label n = medium_label \<longleftrightarrow> 200 < n \<and> n \<le> 500"
      by (rule s [THEN conjunct2, THEN conjunct1])
    show "size_label n = large_label \<longleftrightarrow> 500 < n \<and> n \<le> 1000"
      by (rule s [THEN conjunct2, THEN conjunct2, THEN conjunct1])
    show "size_label n = huge_label \<longleftrightarrow> 1000 < n"
      by (rule s [THEN conjunct2, THEN conjunct2, THEN conjunct2, THEN conjunct1])
  qed
  show ?thesis unfolding t by simp
qed

subsection \<open>Linked issues\<close>

lemma sort_rearranged: "mset ys = mset xs \<Longrightarrow> sort ys = sort (xs :: string list)"
  by (rule properties_for_sort) simp_all

lemma linked_issues_any_order:
  "rearranges iter \<Longrightarrow> linked_issues iter body = sort (remdups (issue_tokens body))"
  unfolding linked_issues_def rearranges_def by (rule sort_rearranged) simp






lemma issue_tokens_example_plain:
  "issue_tokens (Some ''fixes #12 and relates to #7 see #12'') = [''#12'', ''#7'', ''#12'']"
  by (simp add: issue_tokens_def get_or_def split_def is_space_def is_issue_token_def
      isdigit_def is_digit_def)

lemma rearranges_id: "rearranges id"
  by (simp add: rearranges_def)

lemma rearranges_rev: "rearranges rev"
  by (simp add: rearranges_def)





text \<open>
  C9. The summary is a function of the pull request, the commits and the files alone:
  the one thing the language leaves open, the order in which the set of linked issues is
  read, does not show in the text, for any two orders give the same bytes.
\<close>

theorem format_summary_deterministic:
  assumes "rearranges iter1" and "rearranges iter2"
  shows "format_summary iter1 pr commits files = format_summary iter2 pr commits files"
  unfolding format_summary_def summary_lines_def
    linked_issues_any_order [OF assms(1)] linked_issues_any_order [OF assms(2)] ..

theorem format_summary_deterministic_witness:
  "rearranges id \<and> rearranges rev \<and>
   id (remdups (issue_tokens (pr_body example_pr))) \<noteq>
     rev (remdups (issue_tokens (pr_body example_pr))) \<and>
   format_summary id example_pr [] [] = format_summary rev example_pr [] []"
proof -
  have "id (remdups (issue_tokens (pr_body example_pr))) \<noteq>
     rev (remdups (issue_tokens (pr_body example_pr)))"
    by (simp add: example_pr_def issue_tokens_example_plain)
  from rearranges_id rearranges_rev this
    format_summary_deterministic [OF rearranges_id rearranges_rev, of example_pr "[]" "[]"]
  show ?thesis by (intro conjI)
qed

subsection \<open>Commit lines\<close>

lemma splitlines_from_first:
  "line \<noteq> [] \<or> s \<noteq> [] \<Longrightarrow>
   \<exists>ls. splitlines_from line s = (line @ takeWhile (\<lambda>c. \<not> is_linebreak c) s) # ls"
proof (induction s arbitrary: line)
  case Nil
  then show ?case by simp
next
  case (Cons c cs)
  show ?case
  proof (cases "is_linebreak c")
    case True
    then show ?thesis by (cases cs) (simp_all add: is_linebreak_def)
  next
    case False
    then have "c \<noteq> CHR 0x0D" by (auto simp: is_linebreak_def)
    with False Cons.IH [of "line @ [c]"] show ?thesis by simp
  qed
qed

lemma splitlines_nonempty: "msg \<noteq> [] \<Longrightarrow> splitlines msg \<noteq> []"
  unfolding splitlines_def using splitlines_from_first [of "[]" msg] by auto













definition example_commits :: "commit list" where
  "example_commits =
     [\<lparr>sha = Some ''1111111aaaa'', message = Some (''first'' @ [CHR 0x0A] @ ''details'')\<rparr>,
      \<lparr>sha = Some ''2222222bbbb'', message = None\<rparr>]"




subsection \<open>Most-changed files\<close>

lemma ranked_files_mset: "mset (ranked_files files) = mset (file_summaries files)"
  by (simp add: ranked_files_def)

lemma ranked_files_length: "length (ranked_files files) = length files"
  by (simp add: ranked_files_def file_summaries_def)

lemma ranked_files_descending:
  assumes "i \<le> j" "j < length files"
  shows "fst (ranked_files files ! j) \<le> fst (ranked_files files ! i)"
proof -
  let ?r = "ranked_files files"
  have s: "sorted (map (\<lambda>x. - fst x) ?r)"
    unfolding ranked_files_def by (rule sorted_sort_key)
  have j: "j < length (map (\<lambda>x. - fst x) ?r)" using assms(2) by (simp add: ranked_files_length)
  from sorted_nth_mono [OF s assms(1) j]
  have "- fst (?r ! i) \<le> - fst (?r ! j)"
    using assms by (simp add: ranked_files_length)
  then show ?thesis by simp
qed

lemma ranked_files_stable:
  "filter (\<lambda>x. fst x = k) (ranked_files files) = filter (\<lambda>x. fst x = k) (file_summaries files)"
proof -
  have "filter (\<lambda>x. - fst x = - k) (sort_key (\<lambda>x. - fst x) (file_summaries files)) =
        filter (\<lambda>x. - fst x = - k) (file_summaries files)"
    by (rule sort_key_stable)
  then show ?thesis by (simp add: ranked_files_def)
qed

lemma file_summaries_nth:
  "i < length files \<Longrightarrow>
   file_summaries files ! i =
     (get_or (file_additions (files ! i)) 0 + get_or (file_deletions (files ! i)) 0,
      get_or (file_status (files ! i)) [], get_or (file_name (files ! i)) [],
      get_or (file_additions (files ! i)) 0, get_or (file_deletions (files ! i)) 0)"
  by (simp add: file_summaries_def)

lemma top_files_length: "length (top_files files) = min 10 (length files)"
  by (simp add: top_files_def ranked_files_length min.commute)

lemma top_files_nth:
  "i < min 10 (length files) \<Longrightarrow> top_files files ! i = file_line (ranked_files files ! i)"
  by (simp add: top_files_def ranked_files_length)

lemma file_line_eq:
  "file_line (chg, st, name, add, dele) =
     ''- `'' @ name @ ''` ('' @ st @ '', +'' @ str_int add @ ''/-'' @ str_int dele @ '')''"
  by (simp add: file_line_def)

lemma summary_lines_files:
  "top_files files \<noteq> [] \<Longrightarrow>
   \<exists>before rest. summary_lines iter pr commits files =
     before @ [[], ''#### Most-changed files''] @ top_files files @ rest"
proof -
  assume t: "top_files files \<noteq> []"
  let ?hd = "take 6 (summary_lines iter pr commits files) @
      (if recent_commits commits \<noteq> []
       then [[], ''#### Recent commits''] @ recent_commits commits else [])"
  have "\<exists>rest. summary_lines iter pr commits files =
      ?hd @ [[], ''#### Most-changed files''] @ top_files files @ rest"
    using t by (simp add: summary_lines_def Let_def)
  then show ?thesis by blast
qed

definition example_files :: "file_change list" where
  "example_files =
     [\<lparr>file_name = Some ''a.py'', file_status = Some ''modified'',
       file_additions = Some 2, file_deletions = Some 1\<rparr>,
      \<lparr>file_name = Some ''b.py'', file_status = Some ''added'',
       file_additions = Some 5, file_deletions = None\<rparr>,
      \<lparr>file_name = Some ''c.py'', file_status = Some ''removed'',
       file_additions = None, file_deletions = Some 3\<rparr>]"

text \<open>
  C8. The section lists the first 10 entries (all of them when there are fewer) of the
  files sorted by additions plus deletions: the sorted list holds the same entries as the
  listing, its counts never increase from one position to the next, and the entries with
  one and the same count stand in the order of the listing. Each line gives the path,
  the status and the two counts.
\<close>

theorem most_changed_files:
  "length (top_files files) = min 10 (length files) \<and>
   (\<forall>i < min 10 (length files). top_files files ! i = file_line (ranked_files files ! i)) \<and>
   mset (ranked_files files) = mset (file_summaries files) \<and>
   (\<forall>i j. i \<le> j \<and> j < length files \<longrightarrow>
      fst (ranked_files files ! j) \<le> fst (ranked_files files ! i)) \<and>
   (\<forall>k. filter (\<lambda>x. fst x = k) (ranked_files files) =
        filter (\<lambda>x. fst x = k) (file_summaries files)) \<and>
   (\<forall>i < length files.
      file_summaries files ! i =
        (get_or (file_additions (files ! i)) 0 + get_or (file_deletions (files ! i)) 0,
         get_or (file_status (files ! i)) [], get_or (file_name (files ! i)) [],
         get_or (file_additions (files ! i)) 0, get_or (file_deletions (files ! i)) 0)) \<and>
   file_line (chg, st, name, add, dele) =
     ''- `'' @ name @ ''` ('' @ st @ '', +'' @ str_int add @ ''/-'' @ str_int dele @ '')'' \<and>
   (top_files files \<noteq> [] \<longrightarrow>
      (\<exists>before rest. summary_lines iter pr commits files =
         before @ [[], ''#### Most-changed files''] @ top_files files @ rest))"
proof -
  have a: "\<forall>i < min 10 (length files). top_files files ! i = file_line (ranked_files files ! i)"
    by (intro allI impI) (rule top_files_nth)
  have b: "\<forall>i j. i \<le> j \<and> j < length files \<longrightarrow>
      fst (ranked_files files ! j) \<le> fst (ranked_files files ! i)"
    using ranked_files_descending by blast
  have c: "\<forall>k. filter (\<lambda>x. fst x = k) (ranked_files files) =
        filter (\<lambda>x. fst x = k) (file_summaries files)"
    by (intro allI) (rule ranked_files_stable)
  have d: "\<forall>i < length files.
      file_summaries files ! i =
        (get_or (file_additions (files ! i)) 0 + get_or (file_deletions (files ! i)) 0,
         get_or (file_status (files ! i)) [], get_or (file_name (files ! i)) [],
         get_or (file_additions (files ! i)) 0, get_or (file_deletions (files ! i)) 0)"
    by (intro allI impI) (rule file_summaries_nth)
  have e: "top_files files \<noteq> [] \<longrightarrow>
      (\<exists>before rest. summary_lines iter pr commits files =
         before @ [[], ''#### Most-changed files''] @ top_files files @ rest)"
    by (rule impI) (rule summary_lines_files)
  from top_files_length [of files] a ranked_files_mset [of files] b c d
    file_line_eq [of chg st name add dele] e
  show ?thesis by (intro conjI)
qed

theorem most_changed_files_witness:
  "ranked_files example_files =
     [(5, ''added'', ''b.py'', 5, 0), (3, ''modified'', ''a.py'', 2, 1),
      (3, ''removed'', ''c.py'', 0, 3)] \<and>
   top_files example_files ! 0 = file_line (5, ''added'', ''b.py'', 5, 0) \<and>
   top_files example_files ! 1 = file_line (3, ''modified'', ''a.py'', 2, 1) \<and>
   top_files example_files ! 2 = file_line (3, ''removed'', ''c.py'', 0, 3) \<and>
   fst (ranked_files example_files ! 2) \<le> fst (ranked_files example_files ! 0)"
proof -
  note t = most_changed_files [of example_files 5 "''added''" "''b.py''" 5 0 id example_pr "[]"]
  have r: "ranked_files example_files =
     [(5, ''added'', ''b.py'', 5, 0), (3, ''modified'', ''a.py'', 2, 1),
      (3, ''removed'', ''c.py'', 0, 3)]"
    by (simp add: ranked_files_def file_summaries_def example_files_def get_or_def)
  have l: "min 10 (length example_files) = 3" by (simp add: example_files_def)
  note n = t [THEN conjunct2, THEN conjunct1, rule_format, unfolded l r]
  have w0: "top_files example_files ! 0 = file_line (5, ''added'', ''b.py'', 5, 0)"
    using n [of 0] by simp
  have w1: "top_files example_files ! 1 = file_line (3, ''modified'', ''a.py'', 2, 1)"
    using n [of 1] by simp
  have w2: "top_files example_files ! 2 = file_line (3, ''removed'', ''c.py'', 0, 3)"
    using n [of 2] by simp
  have w3: "fst (ranked_files example_files ! 2) \<le> fst (ranked_files example_files ! 0)"
    using t [THEN conjunct2, THEN conjunct2, THEN conjunct2, THEN conjunct1, rule_format,
        of 0 2]
    by (simp add: example_files_def)
  from r w0 w1 w2 w3 show ?thesis by (intro conjI)
qed

section \<open>Comment reconciler: \<open>post_pr_summar.py\<close>\<close>

text \<open>A comment of the pull request: \<open>c["id"]\<close> and \<open>c.get("body", "") or ""\<close>.\<close>

record comment =
  comment_id :: int
  comment_body :: "string option"

definition has_marker :: "comment \<Rightarrow> bool" where
  "has_marker c = sublist MARKER (get_or (comment_body c) [])"

text \<open>
  \<open>find_existing_summary_comment\<close>: the comments are listed page by page and scanned from
  the last one back.
\<close>

definition find_existing_summary_comment ::
  "(nat \<Rightarrow> api_error + comment list option) \<Rightarrow> (api_error + int option) option" where
  "find_existing_summary_comment fetch =
     (case paginate fetch 1 of
        None \<Rightarrow> None
      | Some (pages, Inl e) \<Rightarrow> Some (Inl e)
      | Some (pages, Inr comments) \<Rightarrow>
          Some (Inr (case find has_marker (rev comments) of
                       None \<Rightarrow> None
                     | Some c \<Rightarrow> Some (comment_id c))))"

text \<open>
  Lines 160 to 166 of \<open>main\<close>: the request that is sent, \<open>update_comment\<close> (PATCH) when
  \<open>existing_id\<close> is true, which it is not for \<open>None\<close> and for 0, and \<open>create_comment\<close>
  (POST) otherwise.
\<close>

datatype request = UpdateComment int string | CreateComment string

definition reconcile ::
  "(nat \<Rightarrow> api_error + comment list option) \<Rightarrow> string \<Rightarrow> (api_error + request) option" where
  "reconcile fetch summary =
     (case find_existing_summary_comment fetch of
        None \<Rightarrow> None
      | Some (Inl e) \<Rightarrow> Some (Inl e)
      | Some (Inr existing_id) \<Rightarrow>
          (case existing_id of
             None \<Rightarrow> Some (Inr (CreateComment summary))
           | Some i \<Rightarrow>
               if i \<noteq> 0 then Some (Inr (UpdateComment i summary))
               else Some (Inr (CreateComment summary))))"

text \<open>
  \<open>main\<close>, with \<open>format_summary\<close> fetching the pull request, its commits and its files
  first. An exception of any request ends the run.
\<close>

definition main ::
  "(string list \<Rightarrow> string list) \<Rightarrow> (api_error + pull_request) \<Rightarrow>
   (nat \<Rightarrow> api_error + commit list option) \<Rightarrow> (nat \<Rightarrow> api_error + file_change list option) \<Rightarrow>
   (nat \<Rightarrow> api_error + comment list option) \<Rightarrow> (api_error + request) option" where
  "main iter get_pr fetch_commits fetch_files fetch_comments =
     (case get_pr of
        Inl e \<Rightarrow> Some (Inl e)
      | Inr pr \<Rightarrow>
          (case paginate fetch_commits 1 of
             None \<Rightarrow> None
           | Some (pages, Inl e) \<Rightarrow> Some (Inl e)
           | Some (pages, Inr commits) \<Rightarrow>
               (case paginate fetch_files 1 of
                  None \<Rightarrow> None
                | Some (pages', Inl e) \<Rightarrow> Some (Inl e)
                | Some (pages', Inr files) \<Rightarrow>
                    reconcile fetch_comments (format_summary iter pr commits files))))"

subsection \<open>The forge\<close>

text \<open>
  The comments of the pull request as the forge keeps them, oldest first: a PATCH
  replaces the body of the comment with the given id, a POST appends a comment under an
  id not in use. One run of the reconciler against them, every request succeeding, is
  \<open>upsert\<close>.
\<close>

definition patch_comment :: "comment list \<Rightarrow> int \<Rightarrow> string \<Rightarrow> comment list" where
  "patch_comment comments i body =
     map (\<lambda>c. if comment_id c = i then c\<lparr>comment_body := Some body\<rparr> else c) comments"

definition fresh_id :: "comment list \<Rightarrow> int" where
  "fresh_id comments = foldr max (map comment_id comments) 0 + 1"

definition post_comment :: "comment list \<Rightarrow> string \<Rightarrow> comment list" where
  "post_comment comments body =
     comments @ [\<lparr>comment_id = fresh_id comments, comment_body = Some body\<rparr>]"

definition apply_request :: "comment list \<Rightarrow> request \<Rightarrow> comment list" where
  "apply_request comments req =
     (case req of
        UpdateComment i body \<Rightarrow> patch_comment comments i body
      | CreateComment body \<Rightarrow> post_comment comments body)"

definition upsert :: "comment list \<Rightarrow> string \<Rightarrow> (api_error + request \<times> comment list) option" where
  "upsert comments summary =
     (case reconcile (serve comments) summary of
        None \<Rightarrow> None
      | Some (Inl e) \<Rightarrow> Some (Inl e)
      | Some (Inr req) \<Rightarrow> Some (Inr (req, apply_request comments req)))"

subsection \<open>Update in place\<close>

lemma marker_in_summary: "sublist MARKER (format_summary iter pr commits files)"
proof -
  obtain l ls where "summary_lines iter pr commits files = MARKER # l # ls"
    by (simp add: summary_lines_def Let_def)
  then have "format_summary iter pr commits files = MARKER @ [CHR 0x0A] @ join [CHR 0x0A] (l # ls)"
    by (simp add: format_summary_def)
  then show ?thesis by (metis prefix_imp_sublist prefixI)
qed

lemma find_existing_serve:
  "find_existing_summary_comment (serve comments) =
     Some (Inr (map_option comment_id (find has_marker (rev comments))))"
  unfolding find_existing_summary_comment_def paginate_serve
  by (simp add: map_option_case)

lemma last_match:
  assumes "\<exists>c\<in>set cs. P c"
  shows "\<exists>k<length cs. P (cs ! k) \<and> (\<forall>j. k < j \<and> j < length cs \<longrightarrow> \<not> P (cs ! j))"
proof -
  from assms obtain x where "find P (rev cs) = Some x"
    by (cases "find P (rev cs)") (auto simp: find_None_iff)
  then obtain i where i: "i < length cs" "P (rev cs ! i)" "\<forall>j<i. \<not> P (rev cs ! j)"
    unfolding find_Some_iff by auto
  let ?k = "length cs - Suc i"
  have k: "?k < length cs" using i(1) by simp
  have "P (cs ! ?k)" using i(1,2) by (simp add: rev_nth)
  moreover have "\<not> P (cs ! j)" if "?k < j" "j < length cs" for j
  proof -
    have "length cs - Suc j < i" using that i(1) by arith
    then have "\<not> P (rev cs ! (length cs - Suc j))" using i(3) by blast
    moreover have "rev cs ! (length cs - Suc j) = cs ! j"
      using that(2) by (simp add: rev_nth Suc_diff_Suc)
    ultimately show ?thesis by simp
  qed
  ultimately show ?thesis using k by blast
qed

lemma find_rev_last:
  assumes "k < length cs" "P (cs ! k)" "\<forall>j. k < j \<and> j < length cs \<longrightarrow> \<not> P (cs ! j)"
  shows "find P (rev cs) = Some (cs ! k)"
proof -
  let ?i = "length cs - Suc k"
  have i: "?i < length (rev cs)" using assms(1) by simp
  have x: "rev cs ! ?i = cs ! k" using assms(1) by (simp add: rev_nth Suc_diff_Suc)
  have "\<not> P (rev cs ! j)" if "j < ?i" for j
  proof -
    have "rev cs ! j = cs ! (length cs - Suc j)" using that by (simp add: rev_nth)
    moreover have "k < length cs - Suc j \<and> length cs - Suc j < length cs" using that by arith
    ultimately show ?thesis using assms(3) by simp
  qed
  then show ?thesis unfolding find_Some_iff using i x assms(2) by metis
qed

lemma patch_comment_nth:
  assumes "distinct (map comment_id cs)" "k < length cs"
  shows "patch_comment cs (comment_id (cs ! k)) body = cs[k := (cs ! k)\<lparr>comment_body := Some body\<rparr>]"
proof (rule nth_equalityI)
  show "length (patch_comment cs (comment_id (cs ! k)) body) =
        length (cs[k := (cs ! k)\<lparr>comment_body := Some body\<rparr>])"
    by (simp add: patch_comment_def)
next
  fix j assume "j < length (patch_comment cs (comment_id (cs ! k)) body)"
  then have j: "j < length cs" by (simp add: patch_comment_def)
  have "comment_id (cs ! j) = comment_id (cs ! k) \<longleftrightarrow> j = k"
    using assms j nth_eq_iff_index_eq [of "map comment_id cs" j k] by simp
  then show "patch_comment cs (comment_id (cs ! k)) body ! j =
        cs[k := (cs ! k)\<lparr>comment_body := Some body\<rparr>] ! j"
    using j by (auto simp: patch_comment_def)
qed

lemma has_marker_update:
  "has_marker (c\<lparr>comment_body := Some body\<rparr>) = sublist MARKER body"
  by (simp add: has_marker_def get_or_def)

lemma count_markers_update:
  assumes "k < length cs" "has_marker (cs ! k)" "has_marker c'"
  shows "length (filter has_marker (cs[k := c'])) = length (filter has_marker cs)"
proof -
  have "map has_marker (cs[k := c']) = map has_marker cs"
    using assms by (simp add: map_update list_update_same_conv)
  then have "filter id (map has_marker (cs[k := c'])) = filter id (map has_marker cs)" by simp
  then have "length (filter (id \<circ> has_marker) (cs[k := c'])) = length (filter (id \<circ> has_marker) cs)"
    unfolding filter_map by (metis length_map)
  then show ?thesis by simp
qed


lemma reconcile_serve_update:
  assumes "k < length cs" "has_marker (cs ! k)"
    "\<forall>j. k < j \<and> j < length cs \<longrightarrow> \<not> has_marker (cs ! j)" "comment_id (cs ! k) \<noteq> 0"
  shows "reconcile (serve cs) summary = Some (Inr (UpdateComment (comment_id (cs ! k)) summary))"
  unfolding reconcile_def find_existing_serve find_rev_last [OF assms(1-3)]
  using assms(4) by simp

lemma upsert_update:
  assumes "k < length cs" "has_marker (cs ! k)"
    "\<forall>j. k < j \<and> j < length cs \<longrightarrow> \<not> has_marker (cs ! j)" "comment_id (cs ! k) \<noteq> 0"
    "distinct (map comment_id cs)"
  shows "upsert cs summary =
     Some (Inr (UpdateComment (comment_id (cs ! k)) summary,
                cs[k := (cs ! k)\<lparr>comment_body := Some summary\<rparr>]))"
  unfolding upsert_def reconcile_serve_update [OF assms(1-4)]
  by (simp add: apply_request_def patch_comment_nth [OF assms(5,1)])

lemma main_reconciles:
  "main iter (Inr pr) (serve commits) (serve files) fetch_comments =
     reconcile fetch_comments (format_summary iter pr commits files)"
  unfolding main_def paginate_serve by simp

text \<open>
  C1. On a pull request whose comments have distinct ids other than 0, one of them with
  the marker, a run with a body that holds the marker sends an update for the most recent
  marker comment and creates nothing: that comment gets the new body, every other comment
  stays as it is, and the number of marker comments is unchanged. A second run with the
  same body sends the same update and changes nothing. So a pull request with one marker
  comment has one marker comment after two runs, with the new body. The body that
  \<open>format_summary\<close> builds always holds the marker, and \<open>main\<close> reconciles with that body.
\<close>

theorem upsert_updates_in_place:
  assumes "\<forall>c\<in>set cs. comment_id c \<noteq> 0" and "distinct (map comment_id cs)"
    and "sublist MARKER summary" and "\<exists>c\<in>set cs. has_marker c"
  shows
    "\<exists>k<length cs.
        has_marker (cs ! k) \<and> (\<forall>j. k < j \<and> j < length cs \<longrightarrow> \<not> has_marker (cs ! j)) \<and>
        upsert cs summary =
          Some (Inr (UpdateComment (comment_id (cs ! k)) summary,
                     cs[k := (cs ! k)\<lparr>comment_body := Some summary\<rparr>])) \<and>
        upsert (cs[k := (cs ! k)\<lparr>comment_body := Some summary\<rparr>]) summary =
          Some (Inr (UpdateComment (comment_id (cs ! k)) summary,
                     cs[k := (cs ! k)\<lparr>comment_body := Some summary\<rparr>])) \<and>
        length (filter has_marker (cs[k := (cs ! k)\<lparr>comment_body := Some summary\<rparr>])) =
          length (filter has_marker cs) \<and>
        (length (filter has_marker cs) = 1 \<longrightarrow>
           filter has_marker (cs[k := (cs ! k)\<lparr>comment_body := Some summary\<rparr>]) =
             [\<lparr>comment_id = comment_id (cs ! k), comment_body = Some summary\<rparr>]) \<and>
        sublist MARKER (format_summary iter pr commits files) \<and>
        main iter (Inr pr) (serve commits) (serve files) (serve cs) =
          reconcile (serve cs) (format_summary iter pr commits files)"
proof -
  from last_match [OF assms(4)] obtain k where k: "k < length cs" "has_marker (cs ! k)"
    "\<forall>j. k < j \<and> j < length cs \<longrightarrow> \<not> has_marker (cs ! j)" by blast
  define c' where "c' = (cs ! k)\<lparr>comment_body := Some summary\<rparr>"
  define cs' where "cs' = cs[k := c']"
  have id0: "comment_id (cs ! k) \<noteq> 0" using assms(1) k(1) by simp
  have m': "has_marker c'" unfolding c'_def has_marker_update by (rule assms(3))
  have id': "comment_id c' = comment_id (cs ! k)" by (simp add: c'_def)
  have first: "upsert cs summary = Some (Inr (UpdateComment (comment_id (cs ! k)) summary, cs'))"
    unfolding cs'_def c'_def by (rule upsert_update [OF k id0 assms(2)])
  have k': "k < length cs'" using k(1) by (simp add: cs'_def)
  have nk: "cs' ! k = c'" using k(1) by (simp add: cs'_def)
  have later: "\<forall>j. k < j \<and> j < length cs' \<longrightarrow> \<not> has_marker (cs' ! j)"
    using k(3) by (simp add: cs'_def)
  have ids': "map comment_id cs' = map comment_id cs"
    using k(1) id' by (simp add: cs'_def map_update list_update_same_conv)
  have d': "distinct (map comment_id cs')" unfolding ids' by (rule assms(2))
  have same: "cs'[k := (cs' ! k)\<lparr>comment_body := Some summary\<rparr>] = cs'"
    unfolding nk by (simp add: cs'_def c'_def)
  have "upsert cs' summary =
      Some (Inr (UpdateComment (comment_id (cs' ! k)) summary,
                 cs'[k := (cs' ! k)\<lparr>comment_body := Some summary\<rparr>]))"
    by (rule upsert_update [OF k' _ later _ d']) (simp_all add: nk m' id' id0)
  then have second:
    "upsert cs' summary = Some (Inr (UpdateComment (comment_id (cs ! k)) summary, cs'))"
    unfolding same by (simp add: nk id')
  have count: "length (filter has_marker cs') = length (filter has_marker cs)"
    unfolding cs'_def by (rule count_markers_update [OF k(1,2) m'])
  have one: "filter has_marker cs' =
      [\<lparr>comment_id = comment_id (cs ! k), comment_body = Some summary\<rparr>]"
    if "length (filter has_marker cs) = 1"
  proof -
    have "c' \<in> set (filter has_marker cs')"
      using m' k(1) by (auto simp: cs'_def set_update_memI)
    moreover from that count obtain x where "filter has_marker cs' = [x]"
      by (cases "filter has_marker cs'") auto
    ultimately have "filter has_marker cs' = [c']" by simp
    moreover have "c' = \<lparr>comment_id = comment_id (cs ! k), comment_body = Some summary\<rparr>"
      by (cases "cs ! k") (simp add: c'_def)
    ultimately show ?thesis by simp
  qed
  from k(1,2,3) first second count impI [OF one] marker_in_summary [of iter pr commits files]
    main_reconciles [of iter pr commits files "serve cs"]
  show ?thesis unfolding cs'_def c'_def by blast
qed


definition example_comments :: "comment list" where
  "example_comments =
     [\<lparr>comment_id = 11, comment_body = Some ''looks good''\<rparr>,
      \<lparr>comment_id = 12, comment_body = Some (MARKER @ ''old summary'')\<rparr>,
      \<lparr>comment_id = 13, comment_body = None\<rparr>]"

theorem upsert_updates_in_place_witness:
  "upsert example_comments (format_summary id example_pr example_commits example_files) =
     Some (Inr (UpdateComment 12 (format_summary id example_pr example_commits example_files),
                example_comments[1 := \<lparr>comment_id = 12, comment_body =
                  Some (format_summary id example_pr example_commits example_files)\<rparr>])) \<and>
   upsert (example_comments[1 := \<lparr>comment_id = 12, comment_body =
                  Some (format_summary id example_pr example_commits example_files)\<rparr>])
     (format_summary id example_pr example_commits example_files) =
     Some (Inr (UpdateComment 12 (format_summary id example_pr example_commits example_files),
                example_comments[1 := \<lparr>comment_id = 12, comment_body =
                  Some (format_summary id example_pr example_commits example_files)\<rparr>])) \<and>
   filter has_marker (example_comments[1 := \<lparr>comment_id = 12, comment_body =
                  Some (format_summary id example_pr example_commits example_files)\<rparr>]) =
     [\<lparr>comment_id = 12, comment_body =
        Some (format_summary id example_pr example_commits example_files)\<rparr>]"
proof -
  let ?s = "format_summary id example_pr example_commits example_files"
  let ?cs = example_comments
  have h0: "\<not> has_marker (?cs ! 0)"
  proof
    assume "has_marker (?cs ! 0)"
    then have "sublist MARKER ''looks good''"
      by (simp add: has_marker_def get_or_def example_comments_def)
    from sublist_length_le [OF this] show False by (simp add: MARKER_def)
  qed
  have h1: "has_marker (?cs ! 1)"
    by (simp add: has_marker_def get_or_def example_comments_def)
  have h2: "\<not> has_marker (?cs ! 2)"
    by (simp add: has_marker_def get_or_def example_comments_def MARKER_def)
  have a1: "\<forall>c\<in>set ?cs. comment_id c \<noteq> 0" by (simp add: example_comments_def)
  have a2: "distinct (map comment_id ?cs)" by (simp add: example_comments_def)
  have a3: "sublist MARKER ?s" by (rule marker_in_summary)
  have a4: "\<exists>c\<in>set ?cs. has_marker c"
    using h1 by (auto simp: example_comments_def)
  have n: "length (filter has_marker ?cs) = 1"
  proof -
    have "?cs = [?cs ! 0, ?cs ! 1, ?cs ! 2]" by (simp add: example_comments_def)
    then have "filter has_marker ?cs = filter has_marker [?cs ! 0, ?cs ! 1, ?cs ! 2]" by simp
    also have "\<dots> = [?cs ! 1]" using h0 h1 h2 by simp
    finally show ?thesis by simp
  qed
  from upsert_updates_in_place [OF a1 a2 a3 a4, of id example_pr example_commits example_files]
  obtain k where k: "k < length ?cs" "has_marker (?cs ! k)"
    and u1: "upsert ?cs ?s =
          Some (Inr (UpdateComment (comment_id (?cs ! k)) ?s,
                     ?cs[k := (?cs ! k)\<lparr>comment_body := Some ?s\<rparr>]))"
    and u2: "upsert (?cs[k := (?cs ! k)\<lparr>comment_body := Some ?s\<rparr>]) ?s =
          Some (Inr (UpdateComment (comment_id (?cs ! k)) ?s,
                     ?cs[k := (?cs ! k)\<lparr>comment_body := Some ?s\<rparr>]))"
    and u3: "length (filter has_marker ?cs) = 1 \<longrightarrow>
           filter has_marker (?cs[k := (?cs ! k)\<lparr>comment_body := Some ?s\<rparr>]) =
             [\<lparr>comment_id = comment_id (?cs ! k), comment_body = Some ?s\<rparr>]"
    by blast
  have "k = 0 \<or> k = 1 \<or> k = 2" using k(1) by (auto simp: example_comments_def)
  then have k1: "k = 1" using k(2) h0 h2 by auto
  have i: "comment_id (?cs ! 1) = 12" by (simp add: example_comments_def)
  have c: "(?cs ! 1)\<lparr>comment_body := Some ?s\<rparr> = \<lparr>comment_id = 12, comment_body = Some ?s\<rparr>"
    by (simp add: example_comments_def)
  from u1 u2 u3 [THEN mp, OF n] show ?thesis unfolding k1 i c by (intro conjI)
qed

subsection \<open>Create, then update\<close>

lemma foldr_max_ge: "x \<in> set xs \<Longrightarrow> x \<le> foldr max xs (m :: int)"
  by (induction xs) auto

lemma foldr_max_ge_init: "(m :: int) \<le> foldr max xs m"
  by (induction xs) auto

lemma fresh_id_new: "fresh_id cs \<notin> set (map comment_id cs)" and fresh_id_pos: "0 < fresh_id cs"
proof -
  show "fresh_id cs \<notin> set (map comment_id cs)"
    using foldr_max_ge [of "fresh_id cs" "map comment_id cs" 0] by (auto simp: fresh_id_def)
  show "0 < fresh_id cs"
    using foldr_max_ge_init [of 0 "map comment_id cs"] by (simp add: fresh_id_def)
qed

text \<open>
  With no marker comment yet, the first run creates one and the second run updates that
  very comment: one marker comment after two runs.
\<close>

lemma upsert_create_then_update:
  assumes "distinct (map comment_id cs)" and "sublist MARKER summary"
    and "\<forall>c\<in>set cs. \<not> has_marker c"
  shows "upsert cs summary = Some (Inr (CreateComment summary, post_comment cs summary))"
    and "upsert (post_comment cs summary) summary =
           Some (Inr (UpdateComment (fresh_id cs) summary, post_comment cs summary))"
    and "filter has_marker (post_comment cs summary) =
           [\<lparr>comment_id = fresh_id cs, comment_body = Some summary\<rparr>]"
proof -
  let ?new = "\<lparr>comment_id = fresh_id cs, comment_body = Some summary\<rparr>"
  let ?cs' = "post_comment cs summary"
  have "find has_marker (rev cs) = None" using assms(3) by (simp add: find_None_iff)
  then show "upsert cs summary = Some (Inr (CreateComment summary, ?cs'))"
    by (simp add: upsert_def reconcile_def find_existing_serve apply_request_def)
  have m: "has_marker ?new" using assms(2) by (simp add: has_marker_def get_or_def)
  have k: "length cs < length ?cs'" "?cs' ! length cs = ?new"
    by (simp_all add: post_comment_def)
  have d: "distinct (map comment_id ?cs')"
    using assms(1) fresh_id_new [of cs] by (simp add: post_comment_def)
  have "upsert ?cs' summary =
      Some (Inr (UpdateComment (comment_id (?cs' ! length cs)) summary,
                 ?cs'[length cs := (?cs' ! length cs)\<lparr>comment_body := Some summary\<rparr>]))"
    using fresh_id_pos [of cs]
    by (intro upsert_update [OF k(1) _ _ _ d]) (auto simp: k(2) m post_comment_def)
  then show "upsert ?cs' summary = Some (Inr (UpdateComment (fresh_id cs) summary, ?cs'))"
    by (simp add: k(2)) (simp add: post_comment_def)
  show "filter has_marker ?cs' = [?new]"
    using assms(3) m by (simp add: post_comment_def)
qed

end
